theory Spec2Isabelle
  imports Main "HOL-Library.Word"
begin

unbundle bit_operations_syntax

section \<open>Partial Merkle tree reconstruction (merkle\_branch.go)\<close>

subsection \<open>Data model\<close>

type_synonym byte = "8 word"

text \<open>
  \<^verbatim>\<open>type MerkleNode struct { Hash []byte; Parent, Left, Right *MerkleNode }\<close>.
  Every node that \<^verbatim>\<open>NewBinTree\<close> allocates is appended to \<^verbatim>\<open>m.binTree\<close> at once, so
  a \<^verbatim>\<open>*MerkleNode\<close> is modelled by the position of the node in \<^verbatim>\<open>binTree\<close>
  (\<open>None\<close> is \<^verbatim>\<open>nil\<close>) and \<^verbatim>\<open>binTree\<close> itself is the store. A \<^verbatim>\<open>[]byte\<close> that
  may be \<^verbatim>\<open>nil\<close> is a \<open>byte list option\<close>; a \<^verbatim>\<open>[32]byte\<close> is a \<open>byte list\<close>.
\<close>

record MerkleNode =
  Hash :: "byte list option"
  Parent :: "nat option"
  Left :: "nat option"
  Right :: "nat option"

definition NewBinTree :: "nat option \<Rightarrow> MerkleNode" where
  "NewBinTree parent = \<lparr>Hash = None, Parent = parent, Left = None, Right = None\<rparr>"

record MerkleBranch =
  binTree :: "MerkleNode list"
  target :: "nat option"

text \<open>
  The receiver \<^verbatim>\<open>m\<close> together with the local variables of \<^verbatim>\<open>CreateMerkleBranch\<close>.
\<close>

record walk = MerkleBranch +
  current :: "nat option"
  vbitsIndex :: nat
  hashesIndex :: nat
  depth :: int

text \<open>
  The two \<^verbatim>\<open>fmt.Errorf\<close> results of \<^verbatim>\<open>CreateMerkleBranch\<close> and the two run-time panics
  its body can raise. \<open>ErrIncompleteProof\<close> is "all hashes is parsed, but tree construction
  is not finished"; \<open>ErrFlagStreamExhausted\<close> is "vBits is too short, ...".
\<close>

datatype failure =
  ErrIncompleteProof
  | ErrFlagStreamExhausted
  | PanicNilDereference
  | PanicIndexOutOfRange

text \<open>
  \<^verbatim>\<open>doubleSha256\<close>; \<^verbatim>\<open>sha256.Sum256\<close> belongs to the standard library and is a parameter.
\<close>

definition doubleSha256 :: "(byte list \<Rightarrow> byte list) \<Rightarrow> byte list \<Rightarrow> byte list" where
  "doubleSha256 Sum256 data = Sum256 (Sum256 data)"

text \<open>The bytes of a slice: a \<^verbatim>\<open>nil\<close> slice has none.\<close>

definition slice :: "byte list option \<Rightarrow> byte list" where
  "slice h = (case h of None \<Rightarrow> [] | Some bs \<Rightarrow> bs)"

text \<open>\<^verbatim>\<open>p.Hash\<close> for a pointer \<open>p\<close> that is not \<^verbatim>\<open>nil\<close>.\<close>

definition hashAt :: "MerkleNode list \<Rightarrow> nat option \<Rightarrow> byte list option" where
  "hashAt ns p = (case p of None \<Rightarrow> None | Some i \<Rightarrow> Hash (ns ! i))"

subsection \<open>The body of the loop of CreateMerkleBranch\<close>

text \<open>
  Lines 37-45: all hashes are used. The result of the iteration is the changed state and
  \<open>Some\<close> outcome when the function returns (or panics), \<open>None\<close> when the loop goes on.
\<close>

definition finish ::
  "(byte list \<Rightarrow> byte list) \<Rightarrow> walk \<Rightarrow> nat \<Rightarrow> walk \<times> (failure + byte list) option" where
  "finish Sum256 s c =
     (let ns = binTree s; n = ns ! c in
      if Left n = None \<or> hashAt ns (Left n) = None \<or> Right n = None \<or> hashAt ns (Right n) = None
      then (s, Some (Inl ErrIncompleteProof))
      else
        let root = doubleSha256 Sum256 (slice (hashAt ns (Left n)) @ slice (hashAt ns (Right n)))
        in (s\<lparr>binTree := ns[c := n\<lparr>Hash := Some root\<rparr>]\<rparr>, Some (Inr root)))"

text \<open>Lines 47-57: both children exist; hash the node if it has no hash, go up.\<close>

definition foldUp ::
  "(byte list \<Rightarrow> byte list) \<Rightarrow> walk \<Rightarrow> nat \<Rightarrow> walk \<times> (failure + byte list) option" where
  "foldUp Sum256 s c =
     (let ns = binTree s; n = ns ! c;
          ns' = (if Hash n = None
                 then ns[c := n\<lparr>Hash := Some (doubleSha256 Sum256
                        (slice (hashAt ns (Left n)) @ slice (hashAt ns (Right n))))\<rparr>]
                 else ns)
      in (s\<lparr>binTree := ns', current := Parent n, depth := depth s - 1\<rparr>, None))"

text \<open>Lines 59-67: a left child but no right child; create the right child and go to it.\<close>

definition goRight :: "walk \<Rightarrow> nat \<Rightarrow> walk" where
  "goRight s c =
     (let ns = binTree s @ [NewBinTree (Some c)];
          node = length (binTree s)
      in s\<lparr>binTree := ns[c := (ns ! c)\<lparr>Right := Some node\<rparr>],
           current := Some node, depth := depth s + 1\<rparr>)"

text \<open>
  Lines 69-91, at the node \<open>c\<close> that \<^verbatim>\<open>current\<close> points to: read the flag bit (an index
  outside \<^verbatim>\<open>vbits\<close> panics), make the node a leaf or give it a left child, advance
  \<^verbatim>\<open>vbitsIndex\<close> and only then compare it with \<^verbatim>\<open>len(vbits)\<close>.
\<close>

definition visit ::
  "bool list \<Rightarrow> byte list list \<Rightarrow> int \<Rightarrow> walk \<Rightarrow> nat \<Rightarrow> walk \<times> (failure + byte list) option" where
  "visit vbits hashes height s c =
     (if vbitsIndex s \<ge> length vbits then (s, Some (Inl PanicIndexOutOfRange))
      else
        let bit = vbits ! vbitsIndex s; ns = binTree s in
        if \<not> bit \<or> depth s = height then
          (if hashesIndex s \<ge> length hashes then (s, Some (Inl PanicIndexOutOfRange))
           else
             let s1 = s\<lparr>binTree := ns[c := (ns ! c)\<lparr>Hash := Some (hashes ! hashesIndex s)\<rparr>],
                        target := (if bit \<and> depth s = height then Some c else target s),
                        current := Parent (ns ! c),
                        hashesIndex := hashesIndex s + 1,
                        depth := depth s - 1,
                        vbitsIndex := vbitsIndex s + 1\<rparr>
             in (s1, if vbitsIndex s1 \<ge> length vbits then Some (Inl ErrFlagStreamExhausted) else None))
        else
          let ns1 = ns @ [NewBinTree (Some c)];
              node = length ns;
              s1 = s\<lparr>binTree := ns1[c := (ns1 ! c)\<lparr>Left := Some node\<rparr>],
                     current := Some node,
                     depth := depth s + 1,
                     vbitsIndex := vbitsIndex s + 1\<rparr>
          in (s1, if vbitsIndex s1 \<ge> length vbits then Some (Inl ErrFlagStreamExhausted) else None))"

text \<open>
  One iteration. Both line 38 and line 47 read \<^verbatim>\<open>current.Left\<close> first, which panics when
  \<^verbatim>\<open>current\<close> is \<^verbatim>\<open>nil\<close>.
\<close>

definition step ::
  "(byte list \<Rightarrow> byte list) \<Rightarrow> bool list \<Rightarrow> byte list list \<Rightarrow> int \<Rightarrow> walk
     \<Rightarrow> walk \<times> (failure + byte list) option" where
  "step Sum256 vbits hashes height s =
     (case current s of
        None \<Rightarrow> (s, Some (Inl PanicNilDereference))
      | Some c \<Rightarrow>
          let n = binTree s ! c in
          if hashesIndex s = length hashes then finish Sum256 s c
          else if Left n \<noteq> None \<and> Right n \<noteq> None then foldUp Sum256 s c
          else if Left n \<noteq> None \<and> Right n = None
            then visit vbits hashes height (goRight s c) (length (binTree s))
          else visit vbits hashes height s c)"

subsection \<open>The loop and the function\<close>

text \<open>\<^verbatim>\<open>for { ... }\<close>: \<open>None\<close> stands for a loop that never leaves.\<close>

partial_function (option) loop ::
  "(byte list \<Rightarrow> byte list) \<Rightarrow> bool list \<Rightarrow> byte list list \<Rightarrow> int \<Rightarrow> walk
     \<Rightarrow> (walk \<times> (failure + byte list)) option" where
  "loop Sum256 vbits hashes height s =
     (case step Sum256 vbits hashes height s of
        (s', Some r) \<Rightarrow> Some (s', r)
      | (s', None) \<Rightarrow> loop Sum256 vbits hashes height s')"

declare loop.simps [code]

text \<open>Lines 27-35: the state before the first iteration, for the receiver \<open>m\<close>.\<close>

definition init :: "MerkleBranch \<Rightarrow> walk" where
  "init m = \<lparr>binTree = [NewBinTree None], target = target m,
             current = Some 0, vbitsIndex = 0, hashesIndex = 0, depth = 0\<rparr>"

text \<open>
  \<^verbatim>\<open>CreateMerkleBranch\<close>: the receiver as the call leaves it, with the error or the root.
\<close>

definition CreateMerkleBranch ::
  "(byte list \<Rightarrow> byte list) \<Rightarrow> MerkleBranch \<Rightarrow> bool list \<Rightarrow> byte list list \<Rightarrow> int
     \<Rightarrow> (MerkleBranch \<times> (failure + byte list)) option" where
  "CreateMerkleBranch Sum256 m vbits hashes height =
     (case loop Sum256 vbits hashes height (init m) of
        None \<Rightarrow> None
      | Some (s, r) \<Rightarrow> Some (MerkleBranch.truncate s, r))"

text \<open>
  The state after at most \<open>n\<close> iterations of the loop, with the outcome when the function
  has left the loop within them.
\<close>

fun iter ::
  "(byte list \<Rightarrow> byte list) \<Rightarrow> bool list \<Rightarrow> byte list list \<Rightarrow> int \<Rightarrow> nat \<Rightarrow> walk
     \<Rightarrow> walk \<times> (failure + byte list) option" where
  "iter Sum256 vbits hashes height 0 s = (s, None)"
| "iter Sum256 vbits hashes height (Suc n) s =
     (case step Sum256 vbits hashes height s of
        (s', Some r) \<Rightarrow> (s', Some r)
      | (s', None) \<Rightarrow> iter Sum256 vbits hashes height n s')"

subsection \<open>BuildGraph and buildMerkleTreeDot\<close>

text \<open>
  \<^verbatim>\<open>BuildGraph\<close> hands every node of \<^verbatim>\<open>binTree\<close>, in order, to the graph library. The
  model keeps what the code decides for each node: the bytes its identifier \<^verbatim>\<open>node_%x\<close>
  is printed from, its shape and its fill colour (the label is formatting only), and for
  a node with two children the identifiers of both edges' ends.
\<close>

record graphNode =
  nodeID :: "byte list"
  shape :: string
  fillcolor :: string
  edges :: "(byte list \<times> byte list) list"

definition nodeShape :: "MerkleNode \<Rightarrow> string" where
  "nodeShape node = (if Left node = None \<and> Right node = None then ''box'' else ''ellipse'')"

definition fillColor :: "MerkleBranch \<Rightarrow> nat \<Rightarrow> string" where
  "fillColor m i =
     (let node = binTree m ! i in
      if Left node = None \<and> Right node = None
      then (if Some i = target m then ''lightcoral'' else ''lightblue'')
      else ''white'')"

definition BuildGraph :: "MerkleBranch \<Rightarrow> graphNode list" where
  "BuildGraph m =
     map (\<lambda>i. let node = binTree m ! i; ident = slice (Hash node) in
            \<lparr>nodeID = ident, shape = nodeShape node, fillcolor = fillColor m i,
             edges = (if Left node \<noteq> None \<and> Right node \<noteq> None
                      then [(ident, slice (hashAt (binTree m) (Left node))),
                            (ident, slice (hashAt (binTree m) (Right node)))]
                      else [])\<rparr>)
         [0..<length (binTree m)]"

text \<open>
  The height loop of \<^verbatim>\<open>buildMerkleTreeDot\<close>:
  \<^verbatim>\<open>height := 0; for (1 << uint(height)) < int(totalTx) { height++ }\<close>, with a 64-bit
  \<^verbatim>\<open>int\<close>, which \<open>1 << height\<close> does not leave for a 32-bit \<^verbatim>\<open>totalTx\<close>.
\<close>

function heightLoop :: "nat \<Rightarrow> nat \<Rightarrow> nat" where
  "heightLoop totalTx height =
     (if 2 ^ height < totalTx then heightLoop totalTx (Suc height) else height)"
  by pat_completeness auto
termination
proof (relation "measure (\<lambda>(totalTx, height). totalTx - 2 ^ height)")
  fix totalTx height :: nat
  assume less: "2 ^ height < totalTx"
  have "(2::nat) ^ height < 2 ^ Suc height"
    by simp
  with less have "totalTx - 2 ^ Suc height < totalTx - 2 ^ height"
    by (intro diff_less_mono2)
  then show "((totalTx, Suc height), (totalTx, height))
      \<in> measure (\<lambda>(totalTx, height). totalTx - 2 ^ height)"
    by simp
qed simp

definition buildMerkleTreeDot ::
  "(byte list \<Rightarrow> byte list) \<Rightarrow> 32 word \<Rightarrow> bool list \<Rightarrow> byte list list
     \<Rightarrow> (failure + graphNode list \<times> byte list) option" where
  "buildMerkleTreeDot Sum256 totalTx vbits hashes =
     (let height = heightLoop (unat totalTx) 0 in
      case CreateMerkleBranch Sum256 \<lparr>binTree = [], target = None\<rparr> vbits hashes (int height) of
        None \<Rightarrow> None
      | Some (m, Inl e) \<Rightarrow> Some (Inl e)
      | Some (m, Inr root) \<Rightarrow> Some (Inr (BuildGraph m, root)))"

section \<open>The proof decoder\<close>

subsection \<open>Readers\<close>

text \<open>
  A \<^verbatim>\<open>bytes.Reader\<close> is the list of bytes not read yet. \<^verbatim>\<open>io.ReadFull\<close> for \<open>n\<close> bytes
  (\<^verbatim>\<open>binary.Read\<close> of a fixed-size value calls it too) gives \<^verbatim>\<open>io.EOF\<close> when nothing is
  left and \<^verbatim>\<open>io.ErrUnexpectedEOF\<close> when fewer than \<open>n\<close> bytes are.
\<close>

datatype ioError = EOF | ErrUnexpectedEOF

definition ReadFull :: "nat \<Rightarrow> byte list \<Rightarrow> ioError + (byte list \<times> byte list)" where
  "ReadFull n r =
     (if n = 0 then Inr ([], r)
      else if r = [] then Inl EOF
      else if length r < n then Inl ErrUnexpectedEOF
      else Inr (take n r, drop n r))"

text \<open>\<^verbatim>\<open>binary.LittleEndian\<close>: the value of a byte sequence, least significant byte first.\<close>

fun littleEndian :: "byte list \<Rightarrow> nat" where
  "littleEndian [] = 0"
| "littleEndian (b # bs) = unat b + 256 * littleEndian bs"

definition readVarInt :: "byte list \<Rightarrow> ioError + (64 word \<times> byte list)" where
  "readVarInt r =
     (case ReadFull 1 r of
        Inl err \<Rightarrow> Inl err
      | Inr (d, r1) \<Rightarrow>
          let discriminant = hd d in
          if discriminant = 0xfd then
            (case ReadFull 2 r1 of
               Inl err \<Rightarrow> Inl err
             | Inr (bs, r2) \<Rightarrow> Inr (ucast (word_of_nat (littleEndian bs) :: 16 word), r2))
          else if discriminant = 0xfe then
            (case ReadFull 4 r1 of
               Inl err \<Rightarrow> Inl err
             | Inr (bs, r2) \<Rightarrow> Inr (ucast (word_of_nat (littleEndian bs) :: 32 word), r2))
          else if discriminant = 0xff then
            (case ReadFull 8 r1 of
               Inl err \<Rightarrow> Inl err
             | Inr (bs, r2) \<Rightarrow> Inr (word_of_nat (littleEndian bs), r2))
          else Inr (ucast discriminant, r1))"

subsection \<open>decodeTxOutProofData\<close>

record BlockHeader =
  Version :: "32 word"
  PrevBlockHash :: "byte list"
  MerkleRoot :: "byte list"
  Timestamp :: "32 word"
  Bits :: "32 word"
  Nonce :: "32 word"

record MerkleProofData =
  TotalTransactions :: "32 word"
  HashNum :: "64 word"
  Hashes :: "byte list list"
  VBitsNum :: "64 word"
  VBits :: "bool list"

datatype decodeError =
  ErrShortInput nat
  | ErrNoAdditionalData
  | ErrTotalTransactions ioError
  | ErrHashNum ioError
  | ErrHash nat ioError
  | ErrVBitsNum ioError
  | ErrVBits ioError

text \<open>
  \<^verbatim>\<open>binary.Read(reader, binary.LittleEndian, blockHeader)\<close> on the 80 bytes of the header
  (the signed \<^verbatim>\<open>Version\<close> is kept as its 32 bits).
\<close>

definition decodeHeader :: "byte list \<Rightarrow> BlockHeader" where
  "decodeHeader headerBytes =
     \<lparr>Version = word_of_nat (littleEndian (take 4 headerBytes)),
      PrevBlockHash = take 32 (drop 4 headerBytes),
      MerkleRoot = take 32 (drop 36 headerBytes),
      Timestamp = word_of_nat (littleEndian (take 4 (drop 68 headerBytes))),
      Bits = word_of_nat (littleEndian (take 4 (drop 72 headerBytes))),
      Nonce = word_of_nat (littleEndian (take 4 (drop 76 headerBytes)))\<rparr>"

text \<open>
  Lines 145-149: the hashes still to read, the number of the hash being read, the reader.
\<close>

fun readHashes :: "nat \<Rightarrow> nat \<Rightarrow> byte list \<Rightarrow> decodeError + (byte list list \<times> byte list)" where
  "readHashes 0 i r = Inr ([], r)"
| "readHashes (Suc n) i r =
     (case ReadFull 32 r of
        Inl err \<Rightarrow> Inl (ErrHash (i + 1) err)
      | Inr (h, r') \<Rightarrow>
          (case readHashes n (i + 1) r' of
             Inl e \<Rightarrow> Inl e
           | Inr (hs, r'') \<Rightarrow> Inr (h # hs, r'')))"

text \<open>
  Lines 165-172: every byte of \<^verbatim>\<open>vBits\<close> appends its eight bits \<^verbatim>\<open>(b>>uint(i))&1 == 1\<close>,
  \<open>i\<close> from 0 to 7, to \<^verbatim>\<open>proofData.VBits\<close>.
\<close>

definition bitsOfByte :: "byte \<Rightarrow> bool list" where
  "bitsOfByte b = map (\<lambda>i. (drop_bit i b) AND 1 = 1) [0..<8]"

fun appendBits :: "bool list \<Rightarrow> byte list \<Rightarrow> bool list" where
  "appendBits acc [] = acc"
| "appendBits acc (b # bs) = appendBits (acc @ bitsOfByte b) bs"

text \<open>
  \<^verbatim>\<open>decodeTxOutProofData\<close>. \<open>proofData\<close> is the structure the caller passes in: the flag
  bits are appended to the \<^verbatim>\<open>VBits\<close> it holds. The diagnostic printing is left out, and
  \<^verbatim>\<open>make\<close> is taken to succeed for every count.
\<close>

definition decodeTxOutProofData ::
  "byte list \<Rightarrow> MerkleProofData \<Rightarrow> decodeError + (BlockHeader \<times> MerkleProofData)" where
  "decodeTxOutProofData decodedBytes proofData =
     (if length decodedBytes < 80 then Inl (ErrShortInput (length decodedBytes))
      else
        let blockHeader = decodeHeader (take 80 decodedBytes);
            remainingBytes = drop 80 decodedBytes in
        if length remainingBytes = 0 then Inl ErrNoAdditionalData
        else
          case ReadFull 4 remainingBytes of
            Inl err \<Rightarrow> Inl (ErrTotalTransactions err)
          | Inr (tt, r1) \<Rightarrow>
          case readVarInt r1 of
            Inl err \<Rightarrow> Inl (ErrHashNum err)
          | Inr (hashNum, r2) \<Rightarrow>
          case readHashes (unat hashNum) 0 r2 of
            Inl e \<Rightarrow> Inl e
          | Inr (hashes, r3) \<Rightarrow>
          case readVarInt r3 of
            Inl err \<Rightarrow> Inl (ErrVBitsNum err)
          | Inr (vBitsNum, r4) \<Rightarrow>
          if vBitsNum > 0 then
            (case ReadFull (unat vBitsNum) r4 of
               Inl err \<Rightarrow> Inl (ErrVBits err)
             | Inr (vBits, r5) \<Rightarrow>
                 Inr (blockHeader,
                      \<lparr>TotalTransactions = word_of_nat (littleEndian tt), HashNum = hashNum,
                       Hashes = hashes, VBitsNum = vBitsNum,
                       VBits = appendBits (VBits proofData) vBits\<rparr>))
          else
            Inr (blockHeader,
                 \<lparr>TotalTransactions = word_of_nat (littleEndian tt), HashNum = hashNum,
                  Hashes = hashes, VBitsNum = vBitsNum, VBits = []\<rparr>))"

(*DEFS-END*)

section \<open>Running the loop\<close>

lemmas body_defs =
  step_def visit_def finish_def foldUp_def goRight_def NewBinTree_def hashAt_def slice_def
  init_def Let_def

lemma iter_loop:
  "iter Sum256 vbits hashes height n s = (s', Some r)
     \<Longrightarrow> loop Sum256 vbits hashes height s = Some (s', r)"
proof (induction n arbitrary: s)
  case 0
  then show ?case by simp
next
  case (Suc n)
  then show ?case
    by (subst loop.simps) (auto split: prod.splits option.splits)
qed

lemma CreateMerkleBranch_iter:
  assumes "iter Sum256 vbits hashes height n (init m) = (s', Some r)"
  shows "CreateMerkleBranch Sum256 m vbits hashes height = Some (MerkleBranch.truncate s', r)"
  using iter_loop [OF assms] by (simp add: CreateMerkleBranch_def)

section \<open>Reconstruction on particular proofs\<close>

text \<open>
  C1. A single-transaction proof: \<^verbatim>\<open>totalTransactions = 1\<close>, the flag byte \<^verbatim>\<open>0x01\<close>, one
  hash \<open>h\<close>. The height is 0, the root becomes a leaf holding \<open>h\<close> and is recorded as the
  target; \<^verbatim>\<open>current\<close> then moves to the root's parent, which is \<^verbatim>\<open>nil\<close>, and the next
  iteration reads \<^verbatim>\<open>current.Left\<close>: the call ends in a nil-pointer panic and returns no root.
\<close>

theorem single_transaction_proof_panics:
  "heightLoop (unat (1 :: 32 word)) 0 = 0 \<and>
   CreateMerkleBranch Sum256 \<lparr>binTree = [], target = None\<rparr> (appendBits [] [0x01]) [h] 0 =
     Some (\<lparr>binTree = [\<lparr>Hash = Some h, Parent = None, Left = None, Right = None\<rparr>],
            target = Some 0\<rparr>,
           Inl PanicNilDereference) \<and>
   buildMerkleTreeDot Sum256 1 (appendBits [] [0x01]) [h] = Some (Inl PanicNilDereference)"
proof -
  have height: "heightLoop (unat (1 :: 32 word)) 0 = 0"
    by simp
  have bits: "appendBits [] [0x01] = [True, False, False, False, False, False, False, False]"
    by (simp add: bitsOfByte_def upt_rec)
  have "iter Sum256 (appendBits [] [0x01]) [h] 0 2 (init \<lparr>binTree = [], target = None\<rparr>) =
      (\<lparr>binTree = [\<lparr>Hash = Some h, Parent = None, Left = None, Right = None\<rparr>],
        target = Some 0, current = None, vbitsIndex = 1, hashesIndex = 1, depth = - 1\<rparr>,
       Some (Inl PanicNilDereference))"
    unfolding bits by (simp add: eval_nat_numeral body_defs)
  from CreateMerkleBranch_iter [OF this]
  have run: "CreateMerkleBranch Sum256 \<lparr>binTree = [], target = None\<rparr> (appendBits [] [0x01]) [h] 0 =
      Some (\<lparr>binTree = [\<lparr>Hash = Some h, Parent = None, Left = None, Right = None\<rparr>],
             target = Some 0\<rparr>,
            Inl PanicNilDereference)"
    by (simp add: MerkleBranch.truncate_def)
  from height run show ?thesis
    by (simp add: buildMerkleTreeDot_def)
qed

text \<open>
  C2. Flags \<open>1,0,1,0,0\<close> (padded to a byte), hashes \<open>h1, h2, h3\<close>, height 2: the root has the
  leaf \<open>h1\<close> on the left and on the right an inner node over the leaves \<open>h2\<close> and \<open>h3\<close>.
  The hashes run out while \<^verbatim>\<open>current\<close> is that inner node (node 2), not the root.
  Line 38 only looks at the children of \<^verbatim>\<open>current\<close>, so the call succeeds there: it returns
  the hash of node 2 as the root and leaves the real root (node 0) without a hash.
\<close>

theorem success_away_from_root:
  "CreateMerkleBranch Sum256 m
      [True, False, True, False, False, False, False, False] [h1, h2, h3] 2 =
     Some (\<lparr>binTree =
              [\<lparr>Hash = None, Parent = None, Left = Some 1, Right = Some 2\<rparr>,
               \<lparr>Hash = Some h1, Parent = Some 0, Left = None, Right = None\<rparr>,
               \<lparr>Hash = Some (doubleSha256 Sum256 (h2 @ h3)), Parent = Some 0,
                Left = Some 3, Right = Some 4\<rparr>,
               \<lparr>Hash = Some h2, Parent = Some 2, Left = None, Right = None\<rparr>,
               \<lparr>Hash = Some h3, Parent = Some 2, Left = None, Right = None\<rparr>],
            target = target m\<rparr>,
           Inr (doubleSha256 Sum256 (h2 @ h3)))"
proof -
  have "iter Sum256 [True, False, True, False, False, False, False, False] [h1, h2, h3] 2 6
          (init m) =
      (\<lparr>binTree =
          [\<lparr>Hash = None, Parent = None, Left = Some 1, Right = Some 2\<rparr>,
           \<lparr>Hash = Some h1, Parent = Some 0, Left = None, Right = None\<rparr>,
           \<lparr>Hash = Some (doubleSha256 Sum256 (h2 @ h3)), Parent = Some 0,
            Left = Some 3, Right = Some 4\<rparr>,
           \<lparr>Hash = Some h2, Parent = Some 2, Left = None, Right = None\<rparr>,
           \<lparr>Hash = Some h3, Parent = Some 2, Left = None, Right = None\<rparr>],
        target = target m, current = Some 2, vbitsIndex = 5, hashesIndex = 3, depth = 1\<rparr>,
       Some (Inr (doubleSha256 Sum256 (h2 @ h3))))"
    by (simp add: eval_nat_numeral body_defs)
  from CreateMerkleBranch_iter [OF this] show ?thesis
    by (simp add: MerkleBranch.truncate_def)
qed


text \<open>
  C6. No flag bits at all and at least one hash: the first iteration reads \<^verbatim>\<open>vbits[0]\<close> on
  line 69. The only comparison of \<^verbatim>\<open>vbitsIndex\<close> with \<^verbatim>\<open>len(vbits)\<close> comes after that read,
  on line 89, so the call panics with an index out of range and returns no error value.
\<close>

theorem empty_flags_index_panic:
  "CreateMerkleBranch Sum256 m [] (h # hs) height =
     Some (\<lparr>binTree = [\<lparr>Hash = None, Parent = None, Left = None, Right = None\<rparr>],
            target = target m\<rparr>,
           Inl PanicIndexOutOfRange)"
proof -
  have "iter Sum256 [] (h # hs) height 1 (init m) =
      (init m, Some (Inl PanicIndexOutOfRange))"
    by (simp add: body_defs)
  from CreateMerkleBranch_iter [OF this] show ?thesis
    by (simp add: MerkleBranch.truncate_def init_def NewBinTree_def)
qed

text \<open>
  C7. Two transactions, both matched: flag byte \<^verbatim>\<open>0x07\<close> (bits \<open>1,1,1\<close>), hashes \<open>h1, h2\<close>.
  Both leaves are read with flag 1 at depth 1 = height, but \<^verbatim>\<open>m.target\<close> is one pointer and
  the second leaf overwrites the first: the graph colours the first matched leaf
  \<^verbatim>\<open>lightblue\<close>, as a leaf that was not matched, and only the second \<^verbatim>\<open>lightcoral\<close>.
\<close>

theorem only_last_matched_leaf_highlighted:
  "buildMerkleTreeDot Sum256 2 (appendBits [] [0x07]) [h1, h2] =
     Some (Inr
       ([\<lparr>nodeID = doubleSha256 Sum256 (h1 @ h2), shape = ''ellipse'', fillcolor = ''white'',
          edges = [(doubleSha256 Sum256 (h1 @ h2), h1), (doubleSha256 Sum256 (h1 @ h2), h2)]\<rparr>,
         \<lparr>nodeID = h1, shape = ''box'', fillcolor = ''lightblue'', edges = []\<rparr>,
         \<lparr>nodeID = h2, shape = ''box'', fillcolor = ''lightcoral'', edges = []\<rparr>],
        doubleSha256 Sum256 (h1 @ h2)))"
proof -
  have height: "heightLoop (unat (2 :: 32 word)) 0 = 1"
    by simp
  have bits: "appendBits [] [0x07] = [True, True, True, False, False, False, False, False]"
    by (simp add: bitsOfByte_def upt_rec)
  have "iter Sum256 (appendBits [] [0x07]) [h1, h2] 1 4 (init \<lparr>binTree = [], target = None\<rparr>) =
      (\<lparr>binTree =
          [\<lparr>Hash = Some (doubleSha256 Sum256 (h1 @ h2)), Parent = None,
            Left = Some 1, Right = Some 2\<rparr>,
           \<lparr>Hash = Some h1, Parent = Some 0, Left = None, Right = None\<rparr>,
           \<lparr>Hash = Some h2, Parent = Some 0, Left = None, Right = None\<rparr>],
        target = Some 2, current = Some 0, vbitsIndex = 3, hashesIndex = 2, depth = 0\<rparr>,
       Some (Inr (doubleSha256 Sum256 (h1 @ h2))))"
    unfolding bits by (simp add: eval_nat_numeral body_defs)
  from CreateMerkleBranch_iter [OF this]
  have "CreateMerkleBranch Sum256 \<lparr>binTree = [], target = None\<rparr> (appendBits [] [0x07])
          [h1, h2] 1 =
      Some (\<lparr>binTree =
               [\<lparr>Hash = Some (doubleSha256 Sum256 (h1 @ h2)), Parent = None,
                 Left = Some 1, Right = Some 2\<rparr>,
                \<lparr>Hash = Some h1, Parent = Some 0, Left = None, Right = None\<rparr>,
                \<lparr>Hash = Some h2, Parent = Some 0, Left = None, Right = None\<rparr>],
             target = Some 2\<rparr>,
            Inr (doubleSha256 Sum256 (h1 @ h2)))"
    by (simp add: MerkleBranch.truncate_def)
  with height show ?thesis
    by (simp add: buildMerkleTreeDot_def BuildGraph_def fillColor_def nodeShape_def
        hashAt_def slice_def upt_rec Let_def)
qed

section \<open>The decoder\<close>

subsection \<open>Variable-length integers\<close>

lemma byte_bound: "unat (b :: byte) < 256"
  using unsigned_less [of b, where 'a = nat] by simp

lemma unat_le16: "n < 2 ^ 16 \<Longrightarrow> unat (ucast (word_of_nat n :: 16 word) :: 64 word) = n"
  by (simp add: unsigned_ucast_eq unat_of_nat take_bit_nat_eq_self)

lemma unat_le32: "n < 2 ^ 32 \<Longrightarrow> unat (ucast (word_of_nat n :: 32 word) :: 64 word) = n"
  by (simp add: unsigned_ucast_eq unat_of_nat take_bit_nat_eq_self)

lemma unat_le64: "n < 2 ^ 64 \<Longrightarrow> unat (word_of_nat n :: 64 word) = n"
  by (simp add: unat_of_nat)

lemma littleEndian_bound: "littleEndian bs < 2 ^ (8 * length bs)"
proof (induction bs)
  case Nil
  then show ?case by simp
next
  case (Cons b bs)
  have "unat b + 256 * littleEndian bs < 256 + 256 * littleEndian bs"
    using byte_bound [of b] by simp
  also have "\<dots> = 256 * Suc (littleEndian bs)"
    by simp
  also have "\<dots> \<le> 256 * 2 ^ (8 * length bs)"
    using Cons.IH by (intro mult_le_mono2) simp
  also have "\<dots> = 2 ^ (8 * length (b # bs))"
    by (simp add: power_add)
  finally show ?case
    by simp
qed

text \<open>
  C8. \<^verbatim>\<open>readVarInt\<close> follows the discriminant: a first byte below \<^verbatim>\<open>0xfd\<close> is the value
  (\<^verbatim>\<open>0xfc\<close> gives 252); \<^verbatim>\<open>0xfd\<close>, \<^verbatim>\<open>0xfe\<close> and \<^verbatim>\<open>0xff\<close> are followed by a little-endian
  value of 2, 4 and 8 bytes (\<^verbatim>\<open>fd 00 01\<close> gives 256). Every such value is accepted, also one
  that a shorter encoding could hold: \<^verbatim>\<open>fd 01 00\<close> gives 1.
\<close>

theorem readVarInt_discriminant:
  "(d < 0xfd \<longrightarrow> readVarInt (d # r) = Inr (ucast d, r)) \<and>
   readVarInt (0xfc # r) = Inr (252, r) \<and>
   readVarInt (0xfd # 0x00 # 0x01 # r) = Inr (256, r) \<and>
   readVarInt (0xfd # 0x01 # 0x00 # r) = Inr (1, r) \<and>
   (\<exists>v. readVarInt (0xfd # b0 # b1 # r) = Inr (v, r) \<and> unat v = littleEndian [b0, b1]) \<and>
   (\<exists>v. readVarInt (0xfe # b0 # b1 # b2 # b3 # r) = Inr (v, r) \<and>
        unat v = littleEndian [b0, b1, b2, b3]) \<and>
   (\<exists>v. readVarInt (0xff # b0 # b1 # b2 # b3 # b4 # b5 # b6 # b7 # r) = Inr (v, r) \<and>
        unat v = littleEndian [b0, b1, b2, b3, b4, b5, b6, b7])"
proof (intro conjI)
  show "d < 0xfd \<longrightarrow> readVarInt (d # r) = Inr (ucast d, r)"
    by (auto simp: readVarInt_def ReadFull_def)
  show "readVarInt (0xfc # r) = Inr (252, r)"
    by (simp add: readVarInt_def ReadFull_def)
  show "readVarInt (0xfd # 0x00 # 0x01 # r) = Inr (256, r)"
    by (simp add: readVarInt_def ReadFull_def)
  show "readVarInt (0xfd # 0x01 # 0x00 # r) = Inr (1, r)"
    by (simp add: readVarInt_def ReadFull_def)
  have "readVarInt (0xfd # b0 # b1 # r) =
      Inr (ucast (word_of_nat (littleEndian [b0, b1]) :: 16 word), r)"
    by (simp add: readVarInt_def ReadFull_def)
  moreover have "unat (ucast (word_of_nat (littleEndian [b0, b1]) :: 16 word) :: 64 word) =
      littleEndian [b0, b1]"
    using littleEndian_bound [of "[b0, b1]"] by (intro unat_le16) simp
  ultimately show "\<exists>v. readVarInt (0xfd # b0 # b1 # r) = Inr (v, r) \<and>
      unat v = littleEndian [b0, b1]"
    by blast
  have "readVarInt (0xfe # b0 # b1 # b2 # b3 # r) =
      Inr (ucast (word_of_nat (littleEndian [b0, b1, b2, b3]) :: 32 word), r)"
    by (simp add: readVarInt_def ReadFull_def)
  moreover have "unat (ucast (word_of_nat (littleEndian [b0, b1, b2, b3]) :: 32 word) :: 64 word) =
      littleEndian [b0, b1, b2, b3]"
    using littleEndian_bound [of "[b0, b1, b2, b3]"] by (intro unat_le32) simp
  ultimately show "\<exists>v. readVarInt (0xfe # b0 # b1 # b2 # b3 # r) = Inr (v, r) \<and>
      unat v = littleEndian [b0, b1, b2, b3]"
    by blast
  have "readVarInt (0xff # b0 # b1 # b2 # b3 # b4 # b5 # b6 # b7 # r) =
      Inr (word_of_nat (littleEndian [b0, b1, b2, b3, b4, b5, b6, b7]), r)"
    by (simp add: readVarInt_def ReadFull_def)
  moreover have "unat (word_of_nat (littleEndian [b0, b1, b2, b3, b4, b5, b6, b7]) :: 64 word) =
      littleEndian [b0, b1, b2, b3, b4, b5, b6, b7]"
    using littleEndian_bound [of "[b0, b1, b2, b3, b4, b5, b6, b7]"] by (intro unat_le64) simp
  ultimately show "\<exists>v. readVarInt (0xff # b0 # b1 # b2 # b3 # b4 # b5 # b6 # b7 # r) = Inr (v, r) \<and>
      unat v = littleEndian [b0, b1, b2, b3, b4, b5, b6, b7]"
    by blast
qed

theorem readVarInt_discriminant_witness:
  "(0x10 :: byte) < 0xfd \<and> readVarInt [0x10, 0xaa] = Inr (16, [0xaa]) \<and>
   readVarInt [0xfc] = Inr (252, []) \<and>
   readVarInt [0xfd, 0x00, 0x01] = Inr (256, []) \<and>
   readVarInt [0xfd, 0x01, 0x00] = Inr (1, [])"
  using readVarInt_discriminant [of "0x10" "[0xaa]"] readVarInt_discriminant [of "0x10" "[]"]
  by simp

subsection \<open>Flag bits\<close>

lemma length_bitsOfByte: "length (bitsOfByte b) = 8"
  by (simp add: bitsOfByte_def)

lemma bitsOfByte_nth: "i < 8 \<Longrightarrow> bitsOfByte b ! i = bit b i"
  by (simp add: bitsOfByte_def bit_iff_odd_drop_bit and_one_eq odd_iff_mod_2_eq_one)

lemma appendBits_concat: "appendBits acc bs = acc @ concat (map bitsOfByte bs)"
  by (induction bs arbitrary: acc) simp_all

lemma length_concat_bits: "length (concat (map bitsOfByte bs)) = 8 * length bs"
  by (induction bs) (simp_all add: length_bitsOfByte)

lemma concat_bits_nth:
  "b < length bs \<Longrightarrow> i < 8 \<Longrightarrow> concat (map bitsOfByte bs) ! (8 * b + i) = bit (bs ! b) i"
proof (induction bs arbitrary: b)
  case Nil
  then show ?case by simp
next
  case (Cons x xs)
  show ?case
  proof (cases b)
    case 0
    with Cons.prems show ?thesis
      by (simp add: nth_append length_bitsOfByte bitsOfByte_nth)
  next
    case (Suc k)
    with Cons.prems have "k < length xs"
      by simp
    from Cons.IH [OF this Cons.prems(2)] Suc show ?thesis
      by (simp add: nth_append length_bitsOfByte)
  qed
qed

subsection \<open>What a successful decoding has read\<close>

lemma ReadFull_append:
  "ReadFull n r = Inr (x, r') \<Longrightarrow> ReadFull n (r @ e) = Inr (x, r' @ e)"
  by (auto simp: ReadFull_def split: if_splits)

lemma ReadFull_split:
  "ReadFull n r = Inr (x, r') \<Longrightarrow> r = x @ r' \<and> length x = n"
  by (auto simp: ReadFull_def split: if_splits)

lemma readVarInt_append:
  assumes "readVarInt r = Inr (v, r')"
  shows "readVarInt (r @ e) = Inr (v, r' @ e)"
proof -
  from assms obtain d r1 where d: "ReadFull 1 r = Inr (d, r1)"
    by (auto simp: readVarInt_def split: sum.splits)
  note d' = ReadFull_append [OF d, of e]
  consider (two) "hd d = 0xfd" | (four) "hd d \<noteq> 0xfd" "hd d = 0xfe"
    | (eight) "hd d \<noteq> 0xfd" "hd d \<noteq> 0xfe" "hd d = 0xff"
    | (one) "hd d \<noteq> 0xfd" "hd d \<noteq> 0xfe" "hd d \<noteq> 0xff"
    by blast
  then show ?thesis
  proof cases
    case two
    with assms d obtain bs where "ReadFull 2 r1 = Inr (bs, r')"
      and "v = ucast (word_of_nat (littleEndian bs) :: 16 word)"
      by (auto simp: readVarInt_def split: sum.splits)
    with two d' ReadFull_append [of 2 r1 bs r' e] show ?thesis
      by (simp add: readVarInt_def)
  next
    case four
    with assms d obtain bs where "ReadFull 4 r1 = Inr (bs, r')"
      and "v = ucast (word_of_nat (littleEndian bs) :: 32 word)"
      by (auto simp: readVarInt_def split: sum.splits)
    with four d' ReadFull_append [of 4 r1 bs r' e] show ?thesis
      by (simp add: readVarInt_def)
  next
    case eight
    with assms d obtain bs where "ReadFull 8 r1 = Inr (bs, r')"
      and "v = word_of_nat (littleEndian bs)"
      by (auto simp: readVarInt_def split: sum.splits)
    with eight d' ReadFull_append [of 8 r1 bs r' e] show ?thesis
      by (simp add: readVarInt_def)
  next
    case one
    with assms d d' show ?thesis
      by (simp add: readVarInt_def)
  qed
qed


lemma readVarInt_split:
  assumes "readVarInt r = Inr (v, r')"
  shows "\<exists>p. r = p @ r'"
proof -
  from assms obtain d r1 where d: "ReadFull 1 r = Inr (d, r1)"
    by (auto simp: readVarInt_def split: sum.splits)
  then have r: "r = d @ r1"
    by (simp add: ReadFull_split)
  have "\<exists>q. r1 = q @ r'"
  proof (cases "hd d = 0xfd \<or> hd d = 0xfe \<or> hd d = 0xff")
    case True
    with assms d obtain k bs where "ReadFull k r1 = Inr (bs, r')"
      by (auto simp: readVarInt_def split: sum.splits if_splits)
    then show ?thesis
      using ReadFull_split by blast
  next
    case False
    with assms d have "r1 = r'"
      by (simp add: readVarInt_def)
    then show ?thesis
      by simp
  qed
  with r show ?thesis
    by (metis append.assoc)
qed

lemma readHashes_append:
  "readHashes n i r = Inr (hs, r') \<Longrightarrow> readHashes n i (r @ e) = Inr (hs, r' @ e)"
proof (induction n arbitrary: i r hs)
  case 0
  then show ?case by simp
next
  case (Suc n)
  from Suc.prems obtain h r1 hs1 where
    h: "ReadFull 32 r = Inr (h, r1)" and rest: "readHashes n (i + 1) r1 = Inr (hs1, r')"
    and hs: "hs = h # hs1"
    by (auto split: sum.splits)
  from ReadFull_append [OF h] Suc.IH [OF rest] hs show ?case
    by simp
qed

lemma readHashes_split:
  "readHashes n i r = Inr (hs, r') \<Longrightarrow> r = concat hs @ r' \<and> length hs = n"
proof (induction n arbitrary: i r hs)
  case 0
  then show ?case by simp
next
  case (Suc n)
  from Suc.prems obtain h r1 hs1 where
    h: "ReadFull 32 r = Inr (h, r1)" and rest: "readHashes n (i + 1) r1 = Inr (hs1, r')"
    and hs: "hs = h # hs1"
    by (auto split: sum.splits)
  from ReadFull_split [OF h] Suc.IH [OF rest] hs show ?case
    by simp
qed


lemma decode_stages:
  assumes "decodeTxOutProofData buf pd0 = Inr (hdr, pd)"
  shows "\<exists>tt r1 r2 r3 r4 vBits r5.
           80 \<le> length buf \<and> drop 80 buf \<noteq> [] \<and>
           ReadFull 4 (drop 80 buf) = Inr (tt, r1) \<and>
           readVarInt r1 = Inr (HashNum pd, r2) \<and>
           readHashes (unat (HashNum pd)) 0 r2 = Inr (Hashes pd, r3) \<and>
           readVarInt r3 = Inr (VBitsNum pd, r4) \<and>
           ReadFull (unat (VBitsNum pd)) r4 = Inr (vBits, r5) \<and>
           VBits pd = (if VBitsNum pd > 0 then appendBits (VBits pd0) vBits else []) \<and>
           TotalTransactions pd = word_of_nat (littleEndian tt) \<and>
           hdr = decodeHeader (take 80 buf)"
proof (cases "VBitsNum pd > 0")
  case True
  with assms show ?thesis
    unfolding decodeTxOutProofData_def Let_def
    by (auto split: if_splits sum.splits prod.splits)
next
  case False
  then have zero: "VBitsNum pd = 0"
    by (simp add: word_gt_0)
  have "ReadFull 0 r = Inr ([], r)" for r
    by (simp add: ReadFull_def)
  with assms zero show ?thesis
    unfolding decodeTxOutProofData_def Let_def
    by (auto split: if_splits sum.splits prod.splits)
qed

lemma example_decodes:
  "decodeTxOutProofData
     (replicate 80 0 @ [2, 0, 0, 0] @ [2] @ replicate 32 0x11 @ replicate 32 0x22 @ [1] @ [0x05])
     \<lparr>TotalTransactions = 0, HashNum = 0, Hashes = [], VBitsNum = 0, VBits = []\<rparr> =
   Inr (\<lparr>Version = 0, PrevBlockHash = replicate 32 0, MerkleRoot = replicate 32 0,
         Timestamp = 0, Bits = 0, Nonce = 0\<rparr>,
        \<lparr>TotalTransactions = 2, HashNum = 2,
         Hashes = [replicate 32 0x11, replicate 32 0x22], VBitsNum = 1,
         VBits = [True, False, True, False, False, False, False, False]\<rparr>)"
  by code_simp


text \<open>
  C9. When decoding succeeds for a \<^verbatim>\<open>proofData\<close> that held no flag bits (as in \<^verbatim>\<open>main\<close>),
  the \<open>F\<close> flag bytes read from the buffer give exactly \<open>8 * F\<close> flag bits, and bit \<open>i\<close> of
  byte \<open>b\<close> is the flag with index \<open>8 * b + i\<close>. The byte \<^verbatim>\<open>0b00000101\<close> gives
  \<open>1,0,1,0,0,0,0,0\<close>.
\<close>

theorem flag_bits_unpacked:
  "(decodeTxOutProofData buf pd0 = Inr (hdr, pd) \<and> VBits pd0 = [] \<longrightarrow>
      (\<exists>pre flags post.
          buf = pre @ flags @ post \<and> length flags = unat (VBitsNum pd) \<and>
          VBits pd = appendBits [] flags \<and>
          length (VBits pd) = 8 * unat (VBitsNum pd) \<and>
          (\<forall>b < unat (VBitsNum pd). \<forall>i < 8. VBits pd ! (8 * b + i) = bit (flags ! b) i))) \<and>
   appendBits [] [0x05] = [True, False, True, False, False, False, False, False]"
proof (intro conjI impI)
  assume "decodeTxOutProofData buf pd0 = Inr (hdr, pd) \<and> VBits pd0 = []"
  then have dec: "decodeTxOutProofData buf pd0 = Inr (hdr, pd)" and empty: "VBits pd0 = []"
    by simp_all
  from decode_stages [OF dec] obtain tt r1 r2 r3 r4 vBits r5 where
    tt: "ReadFull 4 (drop 80 buf) = Inr (tt, r1)"
    and hn: "readVarInt r1 = Inr (HashNum pd, r2)"
    and hs: "readHashes (unat (HashNum pd)) 0 r2 = Inr (Hashes pd, r3)"
    and fn: "readVarInt r3 = Inr (VBitsNum pd, r4)"
    and fl: "ReadFull (unat (VBitsNum pd)) r4 = Inr (vBits, r5)"
    and vb: "VBits pd = (if VBitsNum pd > 0 then appendBits (VBits pd0) vBits else [])"
    by blast
  from ReadFull_split [OF fl] have r4: "r4 = vBits @ r5" and len: "length vBits = unat (VBitsNum pd)"
    by simp_all
  from readVarInt_split [OF hn] obtain p1 where p1: "r1 = p1 @ r2" ..
  from readVarInt_split [OF fn] obtain p2 where p2: "r3 = p2 @ r4" ..
  from ReadFull_split [OF tt] have "drop 80 buf = tt @ r1"
    by simp
  with p1 p2 r4 readHashes_split [OF hs]
  have "drop 80 buf = (tt @ p1 @ concat (Hashes pd) @ p2) @ vBits @ r5"
    by simp
  then have "buf = (take 80 buf @ tt @ p1 @ concat (Hashes pd) @ p2) @ vBits @ r5"
    by (metis append.assoc append_take_drop_id)
  moreover have bits: "VBits pd = appendBits [] vBits"
  proof (cases "VBitsNum pd > 0")
    case True
    with vb empty show ?thesis by simp
  next
    case False
    then have "unat (VBitsNum pd) = 0"
      by (simp add: word_gt_0)
    with len vb False show ?thesis by simp
  qed
  moreover from bits len have "length (VBits pd) = 8 * unat (VBitsNum pd)"
    by (simp add: appendBits_concat length_concat_bits)
  moreover from bits len
  have "\<forall>b < unat (VBitsNum pd). \<forall>i < 8. VBits pd ! (8 * b + i) = bit (vBits ! b) i"
    by (simp add: appendBits_concat concat_bits_nth)
  ultimately show "\<exists>pre flags post.
      buf = pre @ flags @ post \<and> length flags = unat (VBitsNum pd) \<and>
      VBits pd = appendBits [] flags \<and>
      length (VBits pd) = 8 * unat (VBitsNum pd) \<and>
      (\<forall>b < unat (VBitsNum pd). \<forall>i < 8. VBits pd ! (8 * b + i) = bit (flags ! b) i)"
    using len by blast
next
  show "appendBits [] [0x05] = [True, False, True, False, False, False, False, False]"
    by (simp add: bitsOfByte_def upt_rec)
qed

theorem flag_bits_unpacked_witness:
  "decodeTxOutProofData
     (replicate 80 0 @ [2, 0, 0, 0] @ [2] @ replicate 32 0x11 @ replicate 32 0x22 @ [1] @ [0x05])
     \<lparr>TotalTransactions = 0, HashNum = 0, Hashes = [], VBitsNum = 0, VBits = []\<rparr> =
   Inr (\<lparr>Version = 0, PrevBlockHash = replicate 32 0, MerkleRoot = replicate 32 0,
         Timestamp = 0, Bits = 0, Nonce = 0\<rparr>,
        \<lparr>TotalTransactions = 2, HashNum = 2,
         Hashes = [replicate 32 0x11, replicate 32 0x22], VBitsNum = 1,
         VBits = [True, False, True, False, False, False, False, False]\<rparr>) \<and>
   (\<exists>flags. length flags = 1 \<and>
      [True, False, True, False, False, False, False, False] = appendBits [] flags \<and>
      (\<forall>b < 1. \<forall>i < 8.
         [True, False, True, False, False, False, False, False] ! (8 * b + i) = bit (flags ! b) i))"
  using example_decodes
    flag_bits_unpacked [of
      "replicate 80 0 @ [2, 0, 0, 0] @ [2] @ replicate 32 0x11 @ replicate 32 0x22 @ [1] @ [0x05]"
      "\<lparr>TotalTransactions = 0, HashNum = 0, Hashes = [], VBitsNum = 0, VBits = []\<rparr>"
      "\<lparr>Version = 0, PrevBlockHash = replicate 32 0, MerkleRoot = replicate 32 0,
         Timestamp = 0, Bits = 0, Nonce = 0\<rparr>"
      "\<lparr>TotalTransactions = 2, HashNum = 2,
         Hashes = [replicate 32 0x11, replicate 32 0x22], VBitsNum = 1,
         VBits = [True, False, True, False, False, False, False, False]\<rparr>"]
  by auto


text \<open>
  C10. The decoder never looks at what follows the flag bytes: a buffer that decodes still
  decodes, to the same header and proof data, with any bytes appended.
\<close>

theorem trailing_bytes_accepted:
  assumes "decodeTxOutProofData buf pd0 = Inr res"
  shows "decodeTxOutProofData (buf @ extra) pd0 = Inr res"
proof -
  obtain hdr pd where res: "res = (hdr, pd)"
    by (cases res)
  from decode_stages [OF assms [unfolded res]] obtain tt r1 r2 r3 r4 vBits r5 where
    len: "80 \<le> length buf" "drop 80 buf \<noteq> []"
    and tt: "ReadFull 4 (drop 80 buf) = Inr (tt, r1)"
    and hn: "readVarInt r1 = Inr (HashNum pd, r2)"
    and hs: "readHashes (unat (HashNum pd)) 0 r2 = Inr (Hashes pd, r3)"
    and fn: "readVarInt r3 = Inr (VBitsNum pd, r4)"
    and fl: "ReadFull (unat (VBitsNum pd)) r4 = Inr (vBits, r5)"
    and vb: "VBits pd = (if VBitsNum pd > 0 then appendBits (VBits pd0) vBits else [])"
    and total: "TotalTransactions pd = word_of_nat (littleEndian tt)"
    and hdr: "hdr = decodeHeader (take 80 buf)"
    by blast
  from len have td: "take 80 (buf @ extra) = take 80 buf"
    "drop 80 (buf @ extra) = drop 80 buf @ extra"
    by simp_all
  note stages = ReadFull_append [OF tt, of extra] readVarInt_append [OF hn, of extra]
    readHashes_append [OF hs, of extra] readVarInt_append [OF fn, of extra]
    ReadFull_append [OF fl, of extra]
  from len stages vb total hdr show ?thesis
    unfolding decodeTxOutProofData_def td Let_def res
    by simp
qed


theorem trailing_bytes_accepted_witness:
  "decodeTxOutProofData
     (replicate 80 0 @ [2, 0, 0, 0] @ [2] @ replicate 32 0x11 @ replicate 32 0x22 @ [1] @ [0x05])
     \<lparr>TotalTransactions = 0, HashNum = 0, Hashes = [], VBitsNum = 0, VBits = []\<rparr> =
   Inr (\<lparr>Version = 0, PrevBlockHash = replicate 32 0, MerkleRoot = replicate 32 0,
         Timestamp = 0, Bits = 0, Nonce = 0\<rparr>,
        \<lparr>TotalTransactions = 2, HashNum = 2,
         Hashes = [replicate 32 0x11, replicate 32 0x22], VBitsNum = 1,
         VBits = [True, False, True, False, False, False, False, False]\<rparr>) \<and>
   decodeTxOutProofData
     ((replicate 80 0 @ [2, 0, 0, 0] @ [2] @ replicate 32 0x11 @ replicate 32 0x22 @ [1] @ [0x05])
        @ [0xde, 0xad, 0xbe, 0xef])
     \<lparr>TotalTransactions = 0, HashNum = 0, Hashes = [], VBitsNum = 0, VBits = []\<rparr> =
   Inr (\<lparr>Version = 0, PrevBlockHash = replicate 32 0, MerkleRoot = replicate 32 0,
         Timestamp = 0, Bits = 0, Nonce = 0\<rparr>,
        \<lparr>TotalTransactions = 2, HashNum = 2,
         Hashes = [replicate 32 0x11, replicate 32 0x22], VBitsNum = 1,
         VBits = [True, False, True, False, False, False, False, False]\<rparr>)"
  using example_decodes trailing_bytes_accepted [OF example_decodes, of "[0xde, 0xad, 0xbe, 0xef]"]
  by simp

end
